theory Spec2Isabelle
  imports Main "HOL-Library.Word"
begin

section \<open>Identifier generators of idgen.cpp\<close>

text \<open>
  The source defines two classes. \<open>SeqIdGenerator\<close> holds one atomic 64-bit counter;
  \<open>IdGenerator\<close> holds an atomic 64-bit counter, a queue of released identifiers and a
  mutex that serialises the queue. Each member function is modelled at its sequential
  interface: as a function from the object's state to the returned value and the new
  state. The mutex carries no data and is not part of the state.
\<close>

subsection \<open>Data\<close>

text \<open>\<open>typedef uint64_t id_t\<close>: arithmetic on it is modulo \<open>2 ^ 64\<close>.\<close>

type_synonym id_t = "64 word"

text \<open>
  \<open>class SeqIdGenerator { std::atomic<id_t> m_id; }\<close>. The field is called
  \<open>seq_m_id\<close> here, since \<open>IdGenerator\<close> has a field of the same name.
\<close>

record SeqIdGenerator =
  seq_m_id :: id_t

text \<open>
  \<open>class IdGenerator { std::atomic<id_t> m_id; std::queue<id_t> m_free_queue;
  std::mutex m_lock; }\<close>. The queue is a list whose head is \<open>front()\<close>; \<open>push\<close>
  appends at the other end.
\<close>

record IdGenerator =
  m_id :: id_t
  m_free_queue :: "id_t list"

subsection \<open>SeqIdGenerator\<close>

text \<open>\<open>SeqIdGenerator() : m_id(0) {}\<close>\<close>

definition SeqIdGenerator_init :: SeqIdGenerator where
  "SeqIdGenerator_init = \<lparr>seq_m_id = 0\<rparr>"

text \<open>\<open>id_t next() { return m_id++; }\<close>: the value before the increment is returned.\<close>

definition SeqIdGenerator_next :: "SeqIdGenerator \<Rightarrow> id_t \<times> SeqIdGenerator" where
  "SeqIdGenerator_next g = (seq_m_id g, g\<lparr>seq_m_id := seq_m_id g + 1\<rparr>)"

subsection \<open>IdGenerator\<close>

text \<open>\<open>IdGenerator() : m_id(0) {}\<close>; the queue is default-constructed, hence empty.\<close>

definition IdGenerator_init :: IdGenerator where
  "IdGenerator_init = \<lparr>m_id = 0, m_free_queue = []\<rparr>"

text \<open>
  \<open>next()\<close>: when the queue is not empty, \<open>front()\<close> is read, \<open>pop()\<close> removes it and
  it is returned; otherwise \<open>m_id++\<close> is returned.
\<close>

definition IdGenerator_next :: "IdGenerator \<Rightarrow> id_t \<times> IdGenerator" where
  "IdGenerator_next g =
     (case m_free_queue g of
        x # rest \<Rightarrow> (x, g\<lparr>m_free_queue := rest\<rparr>)
      | [] \<Rightarrow> (m_id g, g\<lparr>m_id := m_id g + 1\<rparr>))"

text \<open>\<open>void put(id_t id) { m_free_queue.push(id); }\<close>\<close>

definition IdGenerator_put :: "id_t \<Rightarrow> IdGenerator \<Rightarrow> IdGenerator" where
  "IdGenerator_put x g = g\<lparr>m_free_queue := m_free_queue g @ [x]\<rparr>"

subsection \<open>Successive calls\<close>

text \<open>
  \<open>n\<close> calls of \<open>next()\<close> one after the other, as in the loops of the source's tests
  (\<open>for (i = 0; i < kTotalTestIds; ++i) ids.push_back(gen.next())\<close>): the values
  returned, in call order, and the state after the last call.
\<close>

fun SeqIdGenerator_nexts :: "nat \<Rightarrow> SeqIdGenerator \<Rightarrow> id_t list \<times> SeqIdGenerator" where
  "SeqIdGenerator_nexts 0 g = ([], g)"
| "SeqIdGenerator_nexts (Suc n) g =
     (let (x, g') = SeqIdGenerator_next g;
          (xs, g'') = SeqIdGenerator_nexts n g'
      in (x # xs, g''))"

fun IdGenerator_nexts :: "nat \<Rightarrow> IdGenerator \<Rightarrow> id_t list \<times> IdGenerator" where
  "IdGenerator_nexts 0 g = ([], g)"
| "IdGenerator_nexts (Suc n) g =
     (let (x, g') = IdGenerator_next g;
          (xs, g'') = IdGenerator_nexts n g'
      in (x # xs, g''))"

text \<open>\<open>put\<close> called on each identifier of a list, first to last.\<close>

definition IdGenerator_puts :: "id_t list \<Rightarrow> IdGenerator \<Rightarrow> IdGenerator" where
  "IdGenerator_puts xs g = fold IdGenerator_put xs g"

text \<open>
  Several threads calling \<open>SeqIdGenerator::next\<close>: each call is one atomic
  fetch-and-add, so the calls take effect in some total order. A schedule lists, in that
  order, the thread that makes each call; the log pairs each call's thread with the value
  it received, and \<open>returned_to t\<close> is what thread \<open>t\<close> received, in its call order
  (the vectors \<open>ids1\<close>, \<open>ids2\<close> of the source's test).
\<close>

definition SeqIdGenerator_run :: "nat list \<Rightarrow> SeqIdGenerator \<Rightarrow> (nat \<times> id_t) list" where
  "SeqIdGenerator_run sched g = zip sched (fst (SeqIdGenerator_nexts (length sched) g))"

definition returned_to :: "nat \<Rightarrow> (nat \<times> id_t) list \<Rightarrow> id_t list" where
  "returned_to t log = map snd (filter (\<lambda>e. fst e = t) log)"

subsection \<open>Transition relations\<close>

text \<open>The calls of \<open>IdGenerator\<close>'s interface: \<open>next()\<close> and \<open>put(id)\<close>.\<close>

datatype call = Next | Put id_t

text \<open>
  The same member functions as transition relations, one rule for each path through the
  source: \<open>step g r g'\<close> holds when a call in state \<open>g\<close> can return \<open>r\<close> and leave
  the state \<open>g'\<close>. A call of \<open>put\<close> returns nothing (\<open>None\<close>).
\<close>

inductive SeqIdGenerator_step :: "SeqIdGenerator \<Rightarrow> id_t \<Rightarrow> SeqIdGenerator \<Rightarrow> bool" where
  fetch_add: "SeqIdGenerator_step g (seq_m_id g) (g\<lparr>seq_m_id := seq_m_id g + 1\<rparr>)"

inductive IdGenerator_step :: "IdGenerator \<Rightarrow> call \<Rightarrow> id_t option \<Rightarrow> IdGenerator \<Rightarrow> bool" where
  next_reuse: "m_free_queue g = x # rest \<Longrightarrow>
     IdGenerator_step g Next (Some x) (g\<lparr>m_free_queue := rest\<rparr>)"
| next_fresh: "m_free_queue g = [] \<Longrightarrow>
     IdGenerator_step g Next (Some (m_id g)) (g\<lparr>m_id := m_id g + 1\<rparr>)"
| put_push: "IdGenerator_step g (Put x) None (g\<lparr>m_free_queue := m_free_queue g @ [x]\<rparr>)"

code_pred SeqIdGenerator_step .
code_pred IdGenerator_step .

subsection \<open>Traces of calls\<close>

text \<open>
  A trace is a list of calls made one after the other on one \<open>IdGenerator\<close>. Beside the
  generator, the state of a trace records the live identifiers: those returned by
  \<open>next()\<close> and not released by \<open>put\<close> since, one entry for each such return. The
  source keeps no such record; it is kept here to state what callers may rely on.
\<close>

record trace_state =
  gen :: IdGenerator
  live :: "id_t list"

text \<open>A newly constructed generator, nothing issued yet.\<close>

definition trace_init :: trace_state where
  "trace_init = \<lparr>gen = IdGenerator_init, live = []\<rparr>"

text \<open>
  One call: \<open>next()\<close> makes the returned identifier live, \<open>put(x)\<close> ends one return
  of \<open>x\<close>.
\<close>

fun exec :: "call \<Rightarrow> trace_state \<Rightarrow> trace_state" where
  "exec Next s =
     \<lparr>gen = snd (IdGenerator_next (gen s)), live = fst (IdGenerator_next (gen s)) # live s\<rparr>"
| "exec (Put x) s = \<lparr>gen = IdGenerator_put x (gen s), live = remove1 x (live s)\<rparr>"

text \<open>
  The contract of \<open>put\<close>, which the source does not check: at each \<open>put(x)\<close> of the
  trace, \<open>x\<close> is live.
\<close>

fun caller_contract :: "call list \<Rightarrow> trace_state \<Rightarrow> bool" where
  "caller_contract [] s = True"
| "caller_contract (Next # cs) s = caller_contract cs (exec Next s)"
| "caller_contract (Put x # cs) s = (x \<in> set (live s) \<and> caller_contract cs (exec (Put x) s))"

text \<open>No \<open>next()\<close> of the trace returns an identifier that is live when it is returned.\<close>

fun no_double_issue :: "call list \<Rightarrow> trace_state \<Rightarrow> bool" where
  "no_double_issue [] s = True"
| "no_double_issue (Next # cs) s =
     (fst (IdGenerator_next (gen s)) \<notin> set (live s) \<and> no_double_issue cs (exec Next s))"
| "no_double_issue (Put x # cs) s = no_double_issue cs (exec (Put x) s)"

text \<open>The live identifiers are pairwise distinct before and after every call of the trace.\<close>

fun live_distinct_throughout :: "call list \<Rightarrow> trace_state \<Rightarrow> bool" where
  "live_distinct_throughout [] s = distinct (live s)"
| "live_distinct_throughout (c # cs) s =
     (distinct (live s) \<and> live_distinct_throughout cs (exec c s))"

text \<open>How many \<open>next()\<close> calls of the trace find the queue empty and return \<open>m_id++\<close>.\<close>

fun counter_draws :: "call list \<Rightarrow> trace_state \<Rightarrow> nat" where
  "counter_draws [] s = 0"
| "counter_draws (Next # cs) s =
     (if m_free_queue (gen s) = [] then 1 else 0) + counter_draws cs (exec Next s)"
| "counter_draws (Put x # cs) s = counter_draws cs (exec (Put x) s)"

text \<open>The state after the whole trace.\<close>

definition trace_run :: "call list \<Rightarrow> trace_state \<Rightarrow> trace_state" where
  "trace_run cs s = fold exec cs s"

text \<open>
  The invariant behind uniqueness: after \<open>c\<close> draws from the counter, with
  \<open>c \<le> 2 ^ 64\<close>, the counter is \<open>c\<close> modulo \<open>2 ^ 64\<close> and the live identifiers
  together with the queue are the identifiers \<open>0, \<dots>, c - 1\<close>, each once.
\<close>

definition trace_inv :: "nat \<Rightarrow> trace_state \<Rightarrow> bool" where
  "trace_inv c s \<longleftrightarrow>
     c \<le> 2 ^ 64 \<and> m_id (gen s) = of_nat c
     \<and> distinct (live s @ m_free_queue (gen s))
     \<and> set (live s @ m_free_queue (gen s)) = of_nat ` {0..<c}"

section \<open>Single operations\<close>

text \<open>
  C1. In every state of \<open>IdGenerator\<close>, \<open>next()\<close> with a non-empty queue returns the
  head of the queue (the identifier released first, whatever its numeric value), removes
  it and leaves the counter as it is; with an empty queue it returns the counter, leaves
  the queue empty and adds one to the counter.
\<close>

theorem IdGenerator_next_spec:
  "(m_free_queue g \<noteq> [] \<longrightarrow>
      IdGenerator_next g =
        (hd (m_free_queue g), g\<lparr>m_free_queue := tl (m_free_queue g)\<rparr>)
      \<and> m_id (snd (IdGenerator_next g)) = m_id g)
   \<and> (m_free_queue g = [] \<longrightarrow>
      IdGenerator_next g = (m_id g, g\<lparr>m_id := m_id g + 1\<rparr>)
      \<and> m_free_queue (snd (IdGenerator_next g)) = [])"
  by (cases "m_free_queue g") (simp_all add: IdGenerator_next_def)

theorem IdGenerator_next_spec_witness:
  "IdGenerator_next \<lparr>m_id = 7, m_free_queue = [5, 2]\<rparr>
     = (5, \<lparr>m_id = 7, m_free_queue = [2]\<rparr>)
   \<and> IdGenerator_next \<lparr>m_id = 7, m_free_queue = []\<rparr>
     = (7, \<lparr>m_id = 8, m_free_queue = []\<rparr>)"
  using IdGenerator_next_spec [of "\<lparr>m_id = 7, m_free_queue = [5, 2]\<rparr>"]
    IdGenerator_next_spec [of "\<lparr>m_id = 7, m_free_queue = []\<rparr>"]
  by simp

text \<open>
  C2. In every state of \<open>SeqIdGenerator\<close>, \<open>next()\<close> returns the counter as it was
  before the call, and the state after the call is the state before it with the counter
  one larger; the first call on a newly constructed generator returns 0.
\<close>

theorem SeqIdGenerator_next_spec:
  "fst (SeqIdGenerator_next g) = seq_m_id g
   \<and> snd (SeqIdGenerator_next g) = g\<lparr>seq_m_id := seq_m_id g + 1\<rparr>
   \<and> seq_m_id (snd (SeqIdGenerator_next g)) = seq_m_id g + 1
   \<and> fst (SeqIdGenerator_next SeqIdGenerator_init) = 0"
  by (simp add: SeqIdGenerator_next_def SeqIdGenerator_init_def)

text \<open>
  C7. For every identifier and every state of \<open>IdGenerator\<close>, \<open>put(id)\<close> leaves the
  counter as it is and makes the queue the old queue followed by \<open>id\<close>.
\<close>

theorem IdGenerator_put_spec:
  "m_id (IdGenerator_put x g) = m_id g
   \<and> m_free_queue (IdGenerator_put x g) = m_free_queue g @ [x]
   \<and> IdGenerator_put x g = g\<lparr>m_free_queue := m_free_queue g @ [x]\<rparr>
   \<and> take (length (m_free_queue g)) (m_free_queue (IdGenerator_put x g)) = m_free_queue g
   \<and> last (m_free_queue (IdGenerator_put x g)) = x"
  by (simp add: IdGenerator_put_def)

text \<open>
  C9. For every identifier, issued before or not, and every state of \<open>IdGenerator\<close>
  with an empty queue, \<open>put(id)\<close> followed by \<open>next()\<close> returns \<open>id\<close> and ends in the
  state it started from: the queue empty again and the counter as it was.
\<close>

theorem IdGenerator_put_next_roundtrip:
  assumes "m_free_queue g = []"
  shows "IdGenerator_next (IdGenerator_put x g) = (x, g)"
  using assms by (simp add: IdGenerator_next_def IdGenerator_put_def)

theorem IdGenerator_put_next_roundtrip_witness:
  "m_free_queue \<lparr>m_id = 3, m_free_queue = []\<rparr> = []
   \<and> IdGenerator_next (IdGenerator_put 1000 \<lparr>m_id = 3, m_free_queue = []\<rparr>)
       = (1000, \<lparr>m_id = 3, m_free_queue = []\<rparr>)"
  using IdGenerator_put_next_roundtrip [of "\<lparr>m_id = 3, m_free_queue = []\<rparr>" 1000]
  by simp

section \<open>Determinism\<close>

lemma SeqIdGenerator_step_iff:
  "SeqIdGenerator_step g r s \<longleftrightarrow> (r, s) = SeqIdGenerator_next g"
  by (auto simp: SeqIdGenerator_next_def elim: SeqIdGenerator_step.cases
      intro: SeqIdGenerator_step.intros)

lemma IdGenerator_step_Next_iff:
  "IdGenerator_step g Next r s \<longleftrightarrow> r = Some (fst (IdGenerator_next g)) \<and> s = snd (IdGenerator_next g)"
  by (cases "m_free_queue g")
     (auto simp: IdGenerator_next_def elim: IdGenerator_step.cases intro: IdGenerator_step.intros)

lemma IdGenerator_step_Put_iff:
  "IdGenerator_step g (Put x) r s \<longleftrightarrow> r = None \<and> s = IdGenerator_put x g"
  by (auto simp: IdGenerator_put_def elim: IdGenerator_step.cases intro: IdGenerator_step.intros)

text \<open>
  C10. Each operation is deterministic at the sequential interface: two calls of
  \<open>SeqIdGenerator::next\<close> from equal states, and two equal calls (\<open>next()\<close>, or
  \<open>put\<close> of the same identifier) of \<open>IdGenerator\<close> from equal states, return equal
  results and leave equal states.
\<close>

theorem steps_deterministic:
  "(SeqIdGenerator_step g r s \<and> SeqIdGenerator_step g' r' s' \<and> g = g' \<longrightarrow> r = r' \<and> s = s')
   \<and> (IdGenerator_step h c q t \<and> IdGenerator_step h' c' q' t' \<and> h = h' \<and> c = c'
        \<longrightarrow> q = q' \<and> t = t')"
proof (intro conjI impI)
  assume "SeqIdGenerator_step g r s \<and> SeqIdGenerator_step g' r' s' \<and> g = g'"
  then have a: "SeqIdGenerator_step g r s" and b: "SeqIdGenerator_step g r' s'" by auto
  from a show "r = r'" by cases (use b in \<open>cases, simp\<close>)
  from a show "s = s'" by cases (use b in \<open>cases, simp\<close>)
next
  assume "IdGenerator_step h c q t \<and> IdGenerator_step h' c' q' t' \<and> h = h' \<and> c = c'"
  then have a: "IdGenerator_step h c q t" and b: "IdGenerator_step h c q' t'" by auto
  from a have "q = q' \<and> t = t'"
  proof cases
    case (next_reuse x rest)
    with b show ?thesis by cases simp_all
  next
    case next_fresh
    with b show ?thesis by cases simp_all
  next
    case (put_push x)
    with b show ?thesis by cases simp_all
  qed
  then show "q = q'" and "t = t'" by simp_all
qed

theorem steps_deterministic_witness:
  "SeqIdGenerator_step \<lparr>seq_m_id = 4\<rparr> 4 \<lparr>seq_m_id = 5\<rparr>
   \<and> IdGenerator_step \<lparr>m_id = 7, m_free_queue = [5, 2]\<rparr> Next (Some 5)
        \<lparr>m_id = 7, m_free_queue = [2]\<rparr>"
proof -
  have a: "SeqIdGenerator_step \<lparr>seq_m_id = 4\<rparr> 4 \<lparr>seq_m_id = 5\<rparr>"
    using SeqIdGenerator_step.intros [of "\<lparr>seq_m_id = 4\<rparr>"] by simp
  have b: "IdGenerator_step \<lparr>m_id = 7, m_free_queue = [5, 2]\<rparr> Next (Some 5)
        \<lparr>m_id = 7, m_free_queue = [2]\<rparr>"
    using next_reuse [of "\<lparr>m_id = 7, m_free_queue = [5, 2]\<rparr>" 5 "[2]"] by simp
  from a b steps_deterministic [of "\<lparr>seq_m_id = 4\<rparr>" 4 "\<lparr>seq_m_id = 5\<rparr>"
      "\<lparr>seq_m_id = 4\<rparr>" 4 "\<lparr>seq_m_id = 5\<rparr>"
      "\<lparr>m_id = 7, m_free_queue = [5, 2]\<rparr>" Next "Some 5" "\<lparr>m_id = 7, m_free_queue = [2]\<rparr>"
      "\<lparr>m_id = 7, m_free_queue = [5, 2]\<rparr>" Next "Some 5" "\<lparr>m_id = 7, m_free_queue = [2]\<rparr>"]
  show ?thesis by simp
qed

section \<open>Successive calls\<close>

lemma upt_Suc_shift: "map f [0..<Suc n] = f 0 # map (\<lambda>k. f (Suc k)) [0..<n]"
  by (simp only: upt_conv_Cons [of 0 "Suc n"] map_Suc_upt [symmetric]) (simp add: comp_def)

lemma SeqIdGenerator_nexts_eq:
  "SeqIdGenerator_nexts n g =
     (map (\<lambda>k. seq_m_id g + of_nat k) [0..<n], g\<lparr>seq_m_id := seq_m_id g + of_nat n\<rparr>)"
proof (induction n arbitrary: g)
  case 0
  show ?case by simp
next
  case (Suc n)
  show ?case
    unfolding upt_Suc_shift
    by (simp add: Suc.IH SeqIdGenerator_next_def add.assoc del: upt_Suc)
qed

lemma IdGenerator_nexts_queue:
  "IdGenerator_nexts (length (m_free_queue g)) g = (m_free_queue g, g\<lparr>m_free_queue := []\<rparr>)"
proof (induction "m_free_queue g" arbitrary: g)
  case Nil
  then show ?case by simp
next
  case (Cons x rest)
  from Cons.hyps(2) have q: "m_free_queue g = x # rest" by simp
  have "rest = m_free_queue (g\<lparr>m_free_queue := rest\<rparr>)" by simp
  from Cons.hyps(1) [OF this] show ?case
    by (simp add: q IdGenerator_next_def)
qed

lemma IdGenerator_puts_queue:
  "IdGenerator_puts xs g = g\<lparr>m_free_queue := m_free_queue g @ xs\<rparr>"
  unfolding IdGenerator_puts_def
  by (induction xs arbitrary: g) (simp_all add: IdGenerator_put_def)

lemma unat_of_nat_id_t: "k < 2 ^ 64 \<Longrightarrow> unat (of_nat k :: id_t) = k"
  by (simp add: unat_of_nat)

lemma of_nat_id_t_inj_on: "n \<le> 2 ^ 64 \<Longrightarrow> inj_on (\<lambda>k. c + (of_nat k :: id_t)) {0..<n}"
proof (rule inj_onI)
  fix i j
  assume n: "n \<le> 2 ^ 64" and i: "i \<in> {0..<n}" and j: "j \<in> {0..<n}"
    and eq: "c + (of_nat i :: id_t) = c + of_nat j"
  from eq have "unat (of_nat i :: id_t) = unat (of_nat j :: id_t)" by simp
  moreover from n i have "i < 2 ^ 64" by simp
  moreover from n j have "j < 2 ^ 64" by simp
  ultimately show "i = j" by (simp add: unat_of_nat_id_t)
qed

lemma SeqIdGenerator_nexts_distinct:
  "n \<le> 2 ^ 64 \<Longrightarrow> distinct (fst (SeqIdGenerator_nexts n g))"
  by (simp add: SeqIdGenerator_nexts_eq distinct_map of_nat_id_t_inj_on)

lemma SeqIdGenerator_nexts_init:
  "fst (SeqIdGenerator_nexts n SeqIdGenerator_init) = map of_nat [0..<n]"
  by (simp add: SeqIdGenerator_nexts_eq SeqIdGenerator_init_def)

lemma unat_image_of_nat: "n \<le> 2 ^ 64 \<Longrightarrow> unat ` (of_nat :: nat \<Rightarrow> id_t) ` {0..<n} = {0..<n}"
proof -
  assume n: "n \<le> 2 ^ 64"
  have "unat ` (of_nat :: nat \<Rightarrow> id_t) ` {0..<n} = (\<lambda>k. unat (of_nat k :: id_t)) ` {0..<n}"
    by (simp add: image_image)
  also have "\<dots> = (\<lambda>k. k) ` {0..<n}"
    by (rule image_cong) (use n in \<open>simp_all add: unat_of_nat_id_t\<close>)
  finally show ?thesis by simp
qed

lemma of_nat_id_t_less: "i < j \<Longrightarrow> j < 2 ^ 64 \<Longrightarrow> (of_nat i :: id_t) < of_nat j"
  by (simp add: word_less_nat_alt unat_of_nat_id_t)

lemma of_nat_upt_strictly_increasing:
  "n \<le> 2 ^ 64 \<Longrightarrow> sorted_wrt (<) (map (of_nat :: nat \<Rightarrow> id_t) [0..<n])"
  by (simp add: sorted_wrt_map sorted_wrt_iff_nth_less of_nat_id_t_less)

lemma returned_to_strictly_increasing:
  assumes "sorted_wrt (<) outs" and "length sched = length outs"
  shows "sorted_wrt (<) (returned_to t (zip sched outs))"
proof -
  from assms have "sorted_wrt (<) (map snd (zip sched outs))" by simp
  then have "sorted_wrt (\<lambda>a b. snd a < snd b) (zip sched outs)"
    by (simp add: sorted_wrt_map)
  then have "sorted_wrt (\<lambda>a b. snd a < snd b) (filter (\<lambda>e. fst e = t) (zip sched outs))"
    by (rule sorted_wrt_filter)
  then show ?thesis by (simp add: returned_to_def sorted_wrt_map)
qed

text \<open>
  C3. In every state of \<open>IdGenerator\<close> whose queue holds \<open>K\<close> identifiers, \<open>K\<close> calls
  of \<open>next()\<close> with no \<open>put\<close> between them return exactly the queue, first released
  first, and leave the queue empty and the counter untouched. The queue's order is the
  order of release: after \<open>put\<close> of each of \<open>xs\<close> in turn, as many calls as the queue
  is long return the old queue followed by \<open>xs\<close>.
\<close>

theorem IdGenerator_nexts_fifo:
  "IdGenerator_nexts (length (m_free_queue g)) g = (m_free_queue g, g\<lparr>m_free_queue := []\<rparr>)
   \<and> fst (IdGenerator_nexts (length (m_free_queue g) + length xs) (IdGenerator_puts xs g))
       = m_free_queue g @ xs"
proof -
  let ?h = "IdGenerator_puts xs g"
  have h: "m_free_queue ?h = m_free_queue g @ xs"
    by (simp add: IdGenerator_puts_queue)
  have "fst (IdGenerator_nexts (length (m_free_queue ?h)) ?h) = m_free_queue ?h"
    by (simp only: IdGenerator_nexts_queue fst_conv)
  then have "fst (IdGenerator_nexts (length (m_free_queue g) + length xs) ?h)
      = m_free_queue g @ xs"
    by (simp only: h length_append)
  with IdGenerator_nexts_queue [of g] show ?thesis by (intro conjI)
qed

theorem IdGenerator_nexts_fifo_witness:
  "IdGenerator_nexts 3 \<lparr>m_id = 10, m_free_queue = [7, 2, 9]\<rparr>
     = ([7, 2, 9], \<lparr>m_id = 10, m_free_queue = []\<rparr>)
   \<and> fst (IdGenerator_nexts 3 (IdGenerator_puts [2, 9] \<lparr>m_id = 10, m_free_queue = [7]\<rparr>))
     = [7, 2, 9]"
  using IdGenerator_nexts_fifo [of "\<lparr>m_id = 10, m_free_queue = [7, 2, 9]\<rparr>" "[]"]
    IdGenerator_nexts_fifo [of "\<lparr>m_id = 10, m_free_queue = [7]\<rparr>" "[2, 9]"]
  by (simp add: numeral_3_eq_3)

text \<open>
  C5. For every \<open>n < 2 ^ 64\<close>, \<open>n\<close> calls of \<open>next()\<close> on a newly constructed
  \<open>SeqIdGenerator\<close> return \<open>n\<close> pairwise distinct values, which are exactly
  \<open>0, \<dots>, n - 1\<close>; for \<open>n > 0\<close> the least is 0 and the greatest is \<open>n - 1\<close>.
  \<open>N\<close> threads making \<open>M\<close> calls each are the case \<open>n = N * M\<close>.
\<close>

theorem SeqIdGenerator_nexts_range:
  assumes "n < 2 ^ 64"
  shows "length (fst (SeqIdGenerator_nexts n SeqIdGenerator_init)) = n
    \<and> distinct (fst (SeqIdGenerator_nexts n SeqIdGenerator_init))
    \<and> card (set (fst (SeqIdGenerator_nexts n SeqIdGenerator_init))) = n
    \<and> unat ` set (fst (SeqIdGenerator_nexts n SeqIdGenerator_init)) = {0..<n}
    \<and> (0 < n \<longrightarrow> Min (set (fst (SeqIdGenerator_nexts n SeqIdGenerator_init))) = 0
          \<and> Max (set (fst (SeqIdGenerator_nexts n SeqIdGenerator_init))) = of_nat (n - 1))"
proof -
  let ?outs = "fst (SeqIdGenerator_nexts n SeqIdGenerator_init)"
  from assms have n: "n \<le> 2 ^ 64" by simp
  have outs: "?outs = map of_nat [0..<n]" by (rule SeqIdGenerator_nexts_init)
  have len: "length ?outs = n" by (simp add: outs)
  have dist: "distinct ?outs" using n by (rule SeqIdGenerator_nexts_distinct)
  from dist len have card: "card (set ?outs) = n" by (simp add: distinct_card)
  have img: "unat ` set ?outs = {0..<n}"
    using unat_image_of_nat [OF n] by (simp add: outs)
  have minmax: "Min (set ?outs) = 0 \<and> Max (set ?outs) = of_nat (n - 1)" if pos: "0 < n"
  proof
    have "0 \<in> set ?outs" using pos by (force simp: outs)
    then show "Min (set ?outs) = 0" by (intro Min_eqI) simp_all
    have "n - 1 \<in> set [0..<n]" using pos by simp
    then have "of_nat (n - 1) \<in> (of_nat :: nat \<Rightarrow> id_t) ` set [0..<n]" by (rule imageI)
    then have "of_nat (n - 1) \<in> set ?outs" by (simp only: outs set_map)
    moreover have "y \<le> of_nat (n - 1)" if "y \<in> set ?outs" for y
    proof -
      from that obtain k where k: "k < n" and y: "y = of_nat k" by (auto simp: outs)
      from k assms have "k < 2 ^ 64" and "n - 1 < 2 ^ 64" and "k \<le> n - 1"
        by simp_all
      then have "unat (of_nat k :: id_t) \<le> unat (of_nat (n - 1) :: id_t)"
        by (simp only: unat_of_nat_id_t)
      then show ?thesis by (simp add: y word_le_nat_alt)
    qed
    ultimately show "Max (set ?outs) = of_nat (n - 1)" by (intro Max_eqI) simp_all
  qed
  from minmax have "0 < n \<longrightarrow> Min (set ?outs) = 0 \<and> Max (set ?outs) = of_nat (n - 1)" ..
  with len dist card img show ?thesis by (intro conjI)
qed

theorem SeqIdGenerator_nexts_range_witness:
  "(6::nat) < 2 ^ 64
   \<and> fst (SeqIdGenerator_nexts 6 SeqIdGenerator_init) = [0, 1, 2, 3, 4, 5]
   \<and> distinct (fst (SeqIdGenerator_nexts 6 SeqIdGenerator_init))
   \<and> unat ` set (fst (SeqIdGenerator_nexts 6 SeqIdGenerator_init)) = {0..<6}
   \<and> Min (set (fst (SeqIdGenerator_nexts 6 SeqIdGenerator_init))) = 0
   \<and> Max (set (fst (SeqIdGenerator_nexts 6 SeqIdGenerator_init))) = 5"
proof -
  have h: "(6::nat) < 2 ^ 64" by simp
  have v: "fst (SeqIdGenerator_nexts 6 SeqIdGenerator_init) = [0, 1, 2, 3, 4, 5]"
  proof -
    have six: "(6::nat) = Suc (Suc (Suc (Suc (Suc (Suc 0)))))" by simp
    show ?thesis unfolding six
      by (simp add: SeqIdGenerator_next_def SeqIdGenerator_init_def)
  qed
  from SeqIdGenerator_nexts_range [OF h] h v show ?thesis by simp
qed

text \<open>
  C6. On a newly constructed \<open>SeqIdGenerator\<close>, for every schedule of fewer than
  \<open>2 ^ 64\<close> calls and every thread, the values returned to that thread, in its call
  order, are strictly increasing.
\<close>

theorem SeqIdGenerator_per_thread_increasing:
  assumes "length sched < 2 ^ 64"
  shows "sorted_wrt (<) (returned_to t (SeqIdGenerator_run sched SeqIdGenerator_init))"
  unfolding SeqIdGenerator_run_def
proof (rule returned_to_strictly_increasing)
  from assms have "length sched \<le> 2 ^ 64" by simp
  then show "sorted_wrt (<) (fst (SeqIdGenerator_nexts (length sched) SeqIdGenerator_init))"
    by (simp only: SeqIdGenerator_nexts_init of_nat_upt_strictly_increasing)
  show "length sched = length (fst (SeqIdGenerator_nexts (length sched) SeqIdGenerator_init))"
    by (simp add: SeqIdGenerator_nexts_init)
qed

theorem SeqIdGenerator_per_thread_increasing_witness:
  "length [0, 1, 1, 0, 1 :: nat] < 2 ^ 64
   \<and> returned_to 1 (SeqIdGenerator_run [0, 1, 1, 0, 1] SeqIdGenerator_init) = [1, 2, 4]
   \<and> sorted_wrt (<) (returned_to 1 (SeqIdGenerator_run [0, 1, 1, 0, 1] SeqIdGenerator_init))"
proof -
  have h: "length [0, 1, 1, 0, 1 :: nat] < 2 ^ 64" by simp
  have v: "returned_to 1 (SeqIdGenerator_run [0, 1, 1, 0, 1] SeqIdGenerator_init) = [1, 2, 4]"
    by (simp add: returned_to_def SeqIdGenerator_run_def SeqIdGenerator_next_def
        SeqIdGenerator_init_def)
  from h v SeqIdGenerator_per_thread_increasing [OF h, of 1] show ?thesis by (intro conjI)
qed

text \<open>
  C8. The counter of \<open>SeqIdGenerator\<close> is arithmetic modulo \<open>2 ^ 64\<close>: one call adds
  one modulo \<open>2 ^ 64\<close>; from any state, the first \<open>2 ^ 64\<close> calls (or fewer) return
  pairwise distinct values; after exactly \<open>2 ^ 64\<close> calls the state is the starting
  state again, so that \<open>2 ^ 64 + 1\<close> calls return some value twice.
\<close>

theorem SeqIdGenerator_wraps_after_2_64:
  "(n \<le> 2 ^ 64 \<longrightarrow> distinct (fst (SeqIdGenerator_nexts n g)))
   \<and> unat (seq_m_id (snd (SeqIdGenerator_next g))) = (unat (seq_m_id g) + 1) mod 2 ^ 64
   \<and> snd (SeqIdGenerator_nexts (2 ^ 64) g) = g
   \<and> \<not> distinct (fst (SeqIdGenerator_nexts (2 ^ 64 + 1) g))"
proof -
  have a: "n \<le> 2 ^ 64 \<longrightarrow> distinct (fst (SeqIdGenerator_nexts n g))"
    using SeqIdGenerator_nexts_distinct by blast
  have b: "unat (seq_m_id (snd (SeqIdGenerator_next g))) = (unat (seq_m_id g) + 1) mod 2 ^ 64"
    by (simp add: SeqIdGenerator_next_def unat_word_ariths)
  have z: "(of_nat (2 ^ 64) :: id_t) = 0" using of_nat_2p [where 'a = 64] by simp
  from z have c: "snd (SeqIdGenerator_nexts (2 ^ 64) g) = g"
    by (simp only: SeqIdGenerator_nexts_eq snd_conv) simp
  have d: "\<not> distinct (fst (SeqIdGenerator_nexts (2 ^ 64 + 1) g))"
  proof -
    let ?f = "\<lambda>k. seq_m_id g + (of_nat k :: id_t)"
    have "?f 0 = ?f (2 ^ 64)" using z by simp
    moreover have "(0::nat) \<in> {0..<2 ^ 64 + 1}" and "(2 ^ 64 :: nat) \<in> {0..<2 ^ 64 + 1}"
      by simp_all
    moreover have "(0::nat) \<noteq> 2 ^ 64" by simp
    ultimately have "\<not> inj_on ?f {0..<2 ^ 64 + 1}" by (meson inj_onD)
    then have "\<not> distinct (map ?f [0..<2 ^ 64 + 1])"
      by (simp only: distinct_map atLeastLessThan_upt [symmetric] simp_thms)
    then show ?thesis unfolding SeqIdGenerator_nexts_eq fst_conv .
  qed
  show ?thesis by (rule conjI [OF a conjI [OF b conjI [OF c d]]])
qed

theorem SeqIdGenerator_wraps_after_2_64_witness:
  "(3::nat) \<le> 2 ^ 64
   \<and> fst (SeqIdGenerator_nexts 3 \<lparr>seq_m_id = 18446744073709551615\<rparr>)
       = [18446744073709551615, 0, 1]
   \<and> distinct (fst (SeqIdGenerator_nexts 3 \<lparr>seq_m_id = 18446744073709551615\<rparr>))"
proof -
  have h: "(3::nat) \<le> 2 ^ 64" by simp
  have v: "fst (SeqIdGenerator_nexts 3 \<lparr>seq_m_id = 18446744073709551615\<rparr>)
       = [18446744073709551615, 0, 1]"
    by (simp add: numeral_3_eq_3 SeqIdGenerator_next_def)
  from SeqIdGenerator_wraps_after_2_64 [of 3 "\<lparr>seq_m_id = 18446744073709551615\<rparr>"] h
  have "distinct (fst (SeqIdGenerator_nexts 3 \<lparr>seq_m_id = 18446744073709551615\<rparr>))"
    by blast
  with h v show ?thesis by (intro conjI)
qed

section \<open>Traces of calls\<close>

lemma of_nat_id_t_notin:
  assumes "c < 2 ^ 64"
  shows "(of_nat c :: id_t) \<notin> of_nat ` {0..<c}"
proof
  assume "(of_nat c :: id_t) \<in> of_nat ` {0..<c}"
  then obtain k where k: "k < c" and eq: "(of_nat c :: id_t) = of_nat k" by auto
  from eq have "unat (of_nat c :: id_t) = unat (of_nat k :: id_t)" by simp
  with k assms have "c = k" by (simp add: unat_of_nat_id_t)
  with k show False by simp
qed

lemma trace_inv_init: "trace_inv 0 trace_init"
  by (simp add: trace_inv_def trace_init_def IdGenerator_init_def)

lemma trace_inv_next_fresh:
  assumes inv: "trace_inv c s" and q: "m_free_queue (gen s) = []" and c: "c < 2 ^ 64"
  shows "trace_inv (Suc c) (exec Next s)"
    and "fst (IdGenerator_next (gen s)) \<notin> set (live s)"
proof -
  from inv q have id: "m_id (gen s) = of_nat c" and d: "distinct (live s)"
    and st: "set (live s) = of_nat ` {0..<c}"
    by (simp_all add: trace_inv_def)
  from c have new: "(of_nat c :: id_t) \<notin> of_nat ` {0..<c}" by (rule of_nat_id_t_notin)
  have ret: "fst (IdGenerator_next (gen s)) = of_nat c"
    and g': "snd (IdGenerator_next (gen s)) = (gen s)\<lparr>m_id := of_nat c + 1\<rparr>"
    by (simp_all add: IdGenerator_next_def q id)
  show "fst (IdGenerator_next (gen s)) \<notin> set (live s)" unfolding ret st by (rule new)
  have "{0..<Suc c} = insert c {0..<c}" by auto
  then have "(of_nat :: nat \<Rightarrow> id_t) ` {0..<Suc c} = insert (of_nat c) (of_nat ` {0..<c})"
    by (simp only: image_insert)
  with c d st new show "trace_inv (Suc c) (exec Next s)"
    by (simp add: trace_inv_def ret g' q)
qed

lemma trace_inv_next_reuse:
  assumes inv: "trace_inv c s" and q: "m_free_queue (gen s) = x # rest"
  shows "trace_inv c (exec Next s)"
    and "fst (IdGenerator_next (gen s)) \<notin> set (live s)"
proof -
  have ret: "fst (IdGenerator_next (gen s)) = x"
    and g': "snd (IdGenerator_next (gen s)) = (gen s)\<lparr>m_free_queue := rest\<rparr>"
    by (simp_all add: IdGenerator_next_def q)
  from inv q show "fst (IdGenerator_next (gen s)) \<notin> set (live s)"
    by (auto simp: trace_inv_def ret)
  from inv q show "trace_inv c (exec Next s)"
    by (auto simp: trace_inv_def ret g')
qed

lemma trace_inv_put:
  assumes inv: "trace_inv c s" and x: "x \<in> set (live s)"
  shows "trace_inv c (exec (Put x) s)"
proof -
  from inv have d: "distinct (live s)" and dq: "distinct (m_free_queue (gen s))"
    and dj: "set (live s) \<inter> set (m_free_queue (gen s)) = {}"
    and st: "set (live s) \<union> set (m_free_queue (gen s)) = of_nat ` {0..<c}"
    and c: "c \<le> 2 ^ 64" and id: "m_id (gen s) = of_nat c"
    by (simp_all add: trace_inv_def)
  from x dj have xq: "x \<notin> set (m_free_queue (gen s))" by auto
  from d have rm: "set (remove1 x (live s)) = set (live s) - {x}" by simp
  from x st rm have st': "set (remove1 x (live s)) \<union> set (m_free_queue (gen s) @ [x])
      = of_nat ` {0..<c}"
    by auto
  from d dq dj xq rm have d': "distinct (remove1 x (live s) @ m_free_queue (gen s) @ [x])"
    by auto
  from c id st' d' show ?thesis
    by (simp add: trace_inv_def IdGenerator_put_def)
qed

lemma trace_inv_no_double_issue:
  "trace_inv c s \<Longrightarrow> caller_contract cs s \<Longrightarrow> c + counter_draws cs s \<le> 2 ^ 64
   \<Longrightarrow> no_double_issue cs s \<and> live_distinct_throughout cs s"
proof (induction cs arbitrary: c s)
  case Nil
  then show ?case by (simp add: trace_inv_def)
next
  case (Cons a cs)
  from Cons.prems(1) have d: "distinct (live s)" by (simp add: trace_inv_def)
  show ?case
  proof (cases a)
    case Next
    show ?thesis
    proof (cases "m_free_queue (gen s)")
      case Nil
      with Cons.prems(3) Next have c: "c < 2 ^ 64"
        and b: "Suc c + counter_draws cs (exec Next s) \<le> 2 ^ 64" by simp_all
      note step = trace_inv_next_fresh [OF Cons.prems(1) Nil c]
      from Cons.prems(2) Next have "caller_contract cs (exec Next s)" by simp
      from Cons.IH [OF step(1) this b] step(2) d Next show ?thesis by simp
    next
      case (Cons x rest)
      with Cons.prems(3) Next have b: "c + counter_draws cs (exec Next s) \<le> 2 ^ 64" by simp
      note step = trace_inv_next_reuse [OF Cons.prems(1) Cons]
      from Cons.prems(2) Next have "caller_contract cs (exec Next s)" by simp
      from Cons.IH [OF step(1) this b] step(2) d Next show ?thesis by simp
    qed
  next
    case (Put x)
    with Cons.prems(2) have x: "x \<in> set (live s)"
      and cc: "caller_contract cs (exec (Put x) s)" by simp_all
    from Cons.prems(3) Put have b: "c + counter_draws cs (exec (Put x) s) \<le> 2 ^ 64" by simp
    from Cons.IH [OF trace_inv_put [OF Cons.prems(1) x] cc b] d Put show ?thesis by simp
  qed
qed

text \<open>
  C4, as amended. For every trace of calls on a newly constructed \<open>IdGenerator\<close> in
  which each \<open>put(id)\<close> releases a live identifier and in which at most \<open>2 ^ 64\<close>
  calls of \<open>next()\<close> draw from the counter, no \<open>next()\<close> returns an identifier that is
  live, and the live identifiers are pairwise distinct at every point of the trace.
\<close>

theorem IdGenerator_no_double_issue:
  assumes "caller_contract cs trace_init"
    and "counter_draws cs trace_init \<le> 2 ^ 64"
  shows "no_double_issue cs trace_init \<and> live_distinct_throughout cs trace_init"
  using trace_inv_no_double_issue [OF trace_inv_init assms(1)] assms(2) by simp

theorem IdGenerator_no_double_issue_witness:
  "caller_contract [Next, Next, Put 0, Next, Next, Put 1] trace_init
   \<and> counter_draws [Next, Next, Put 0, Next, Next, Put 1] trace_init \<le> 2 ^ 64
   \<and> no_double_issue [Next, Next, Put 0, Next, Next, Put 1] trace_init
   \<and> live_distinct_throughout [Next, Next, Put 0, Next, Next, Put 1] trace_init"
proof -
  have h1: "caller_contract [Next, Next, Put 0, Next, Next, Put 1] trace_init"
    by (simp add: trace_init_def IdGenerator_init_def IdGenerator_next_def IdGenerator_put_def)
  have h2: "counter_draws [Next, Next, Put 0, Next, Next, Put 1] trace_init \<le> 2 ^ 64"
    by (simp add: trace_init_def IdGenerator_init_def IdGenerator_next_def IdGenerator_put_def)
  from IdGenerator_no_double_issue [OF h1 h2] h1 h2 show ?thesis by (intro conjI) simp_all
qed

lemma trace_run_append: "trace_run (cs @ ds) s = trace_run ds (trace_run cs s)"
  by (simp add: trace_run_def)

lemma caller_contract_nexts: "caller_contract (replicate n Next) s"
  by (induction n arbitrary: s) simp_all

lemma no_double_issue_append:
  "no_double_issue (cs @ ds) s \<Longrightarrow> no_double_issue ds (trace_run cs s)"
proof (induction cs arbitrary: s)
  case Nil
  then show ?case by (simp add: trace_run_def)
next
  case (Cons a cs)
  then show ?case by (cases a) (simp_all add: trace_run_def)
qed

lemma live_distinct_throughout_end:
  "live_distinct_throughout cs s \<Longrightarrow> distinct (live (trace_run cs s))"
  by (induction cs arbitrary: s) (simp_all add: trace_run_def)

lemma trace_run_nexts:
  assumes "m_free_queue (gen s) = []"
  shows "trace_run (replicate n Next) s =
     \<lparr>gen = (gen s)\<lparr>m_id := m_id (gen s) + of_nat n\<rparr>,
      live = rev (map (\<lambda>k. m_id (gen s) + of_nat k) [0..<n]) @ live s\<rparr>"
proof (induction n)
  case 0
  show ?case by (simp add: trace_run_def)
next
  case (Suc n)
  have "replicate (Suc n) Next = replicate n Next @ [Next]"
    by (simp add: replicate_append_same)
  then have "trace_run (replicate (Suc n) Next) s = exec Next (trace_run (replicate n Next) s)"
    by (simp only: trace_run_append) (simp add: trace_run_def)
  then show ?case
    by (simp add: Suc.IH IdGenerator_next_def assms add.assoc)
qed

text \<open>
  C4 as first stated, for every trace that keeps the contract of \<open>put\<close>, fails: the
  counter is 64 bits wide, so \<open>2 ^ 64 + 1\<close> calls of \<open>next()\<close> with no \<open>put\<close> at all
  return 0 twice, the second time while it is still live.
\<close>

theorem IdGenerator_double_issue_after_2_64:
  "caller_contract (replicate (2 ^ 64 + 1) Next) trace_init
   \<and> \<not> no_double_issue (replicate (2 ^ 64 + 1) Next) trace_init
   \<and> \<not> live_distinct_throughout (replicate (2 ^ 64 + 1) Next) trace_init"
proof -
  define N :: nat where "N = 2 ^ 64"
  have z: "(of_nat N :: id_t) = 0"
    unfolding N_def using of_nat_2p [where 'a = 64] by simp
  have pos: "0 < N" by (simp add: N_def)
  have q0: "m_free_queue (gen trace_init) = []"
    by (simp add: trace_init_def IdGenerator_init_def)
  have id0: "m_id (gen trace_init) = 0" and l0: "live trace_init = []"
    by (simp_all add: trace_init_def IdGenerator_init_def)
  let ?s = "trace_run (replicate N Next) trace_init"
  have s: "?s = \<lparr>gen = (gen trace_init)\<lparr>m_id := 0\<rparr>, live = rev (map of_nat [0..<N])\<rparr>"
    by (simp add: trace_run_nexts [OF q0] id0 l0 z)
  from pos have "(0::nat) \<in> set [0..<N]" by simp
  then have "(of_nat 0 :: id_t) \<in> of_nat ` set [0..<N]" by (rule imageI)
  then have in_live: "(0 :: id_t) \<in> set (live ?s)" by (simp add: s)
  have ret: "fst (IdGenerator_next (gen ?s)) = 0"
    by (simp add: s IdGenerator_next_def q0)
  have split: "replicate (N + 1) Next = replicate N Next @ [Next]"
    by (simp add: replicate_append_same)
  have a: "caller_contract (replicate (N + 1) Next) trace_init"
    by (rule caller_contract_nexts)
  have b: "\<not> no_double_issue (replicate (N + 1) Next) trace_init"
  proof
    assume "no_double_issue (replicate (N + 1) Next) trace_init"
    then have "no_double_issue [Next] ?s"
      unfolding split by (rule no_double_issue_append)
    with ret in_live show False by simp
  qed
  have c: "\<not> live_distinct_throughout (replicate (N + 1) Next) trace_init"
  proof
    assume "live_distinct_throughout (replicate (N + 1) Next) trace_init"
    then have "distinct (live (trace_run (replicate (N + 1) Next) trace_init))"
      by (rule live_distinct_throughout_end)
    then have "distinct (live (exec Next ?s))"
      by (simp only: split trace_run_append) (simp add: trace_run_def)
    with ret in_live show False by simp
  qed
  from a b c show ?thesis unfolding N_def by (intro conjI)
qed

end
